theory Spec2Isabelle
  imports Main "HOL-Library.Multiset" "HOL-Library.Product_Lexorder"
begin

section \<open>Slug normalisation (src/index.js, normalizeSlug)\<close>

text \<open>
  A JavaScript string is a sequence of UTF-16 code units; a code unit is modelled as a
  natural number (nothing below does arithmetic on it, so the bound \<open>< 65536\<close> is not
  needed). The argument of \<open>normalizeSlug\<close> is a string, \<open>null\<close> or \<open>undefined\<close>.
\<close>

type_synonym js_string = "nat list"

datatype js_value = JUndefined | JNull | JString js_string

text \<open>
  The code units that the regular expression class \<open>\s\<close> matches and that
  \<open>String.prototype.trim\<close> strips: ECMAScript's WhiteSpace and LineTerminator.
\<close>

definition isWhiteSpace :: "nat \<Rightarrow> bool" where
  "isWhiteSpace c \<longleftrightarrow>
     c \<in> {9, 10, 11, 12, 13, 32, 160, 5760, 8232, 8233, 8239, 8287, 12288, 65279}
     \<or> (8192 \<le> c \<and> c \<le> 8202)"

text \<open>\<open>[a-z0-9]\<close>, and the class \<open>[a-z0-9-]\<close> (45 is the hyphen).\<close>

definition isAlnum :: "nat \<Rightarrow> bool" where
  "isAlnum c \<longleftrightarrow> (97 \<le> c \<and> c \<le> 122) \<or> (48 \<le> c \<and> c \<le> 57)"

definition isSlugChar :: "nat \<Rightarrow> bool" where
  "isSlugChar c \<longleftrightarrow> isAlnum c \<or> c = 45"

text \<open>\<open>String(input || "")\<close>: \<open>null\<close>, \<open>undefined\<close> and the empty string are falsy.\<close>

fun string_or_empty :: "js_value \<Rightarrow> js_string" where
  "string_or_empty JUndefined = []"
| "string_or_empty JNull = []"
| "string_or_empty (JString s) = (if s = [] then [] else s)"

text \<open>\<open>.trim()\<close>\<close>

definition trim :: "js_string \<Rightarrow> js_string" where
  "trim s = rev (dropWhile isWhiteSpace (rev (dropWhile isWhiteSpace s)))"

text \<open>\<open>.replace(/\s+/g, "-")\<close>: every maximal run of white space becomes one hyphen.\<close>

function replace_spaces :: "js_string \<Rightarrow> js_string" where
  "replace_spaces [] = []"
| "replace_spaces (c # cs) =
     (if isWhiteSpace c then 45 # replace_spaces (dropWhile isWhiteSpace cs)
      else c # replace_spaces cs)"
  by pat_completeness auto
termination
  by (relation "measure length") (auto simp: le_imp_less_Suc length_dropWhile_le)

text \<open>\<open>.replace(/[^a-z0-9-]/g, "")\<close>\<close>

definition remove_invalid :: "js_string \<Rightarrow> js_string" where
  "remove_invalid s = filter isSlugChar s"

text \<open>\<open>.replace(/-+/g, "-")\<close>: every maximal run of hyphens becomes one hyphen.\<close>

function collapse_hyphens :: "js_string \<Rightarrow> js_string" where
  "collapse_hyphens [] = []"
| "collapse_hyphens (c # cs) =
     (if c = 45 then 45 # collapse_hyphens (dropWhile (\<lambda>d. d = 45) cs)
      else c # collapse_hyphens cs)"
  by pat_completeness auto
termination
  by (relation "measure length") (auto simp: le_imp_less_Suc length_dropWhile_le)

text \<open>
  \<open>.replace(/^-|-$/g, "")\<close>: without the \<open>m\<close> flag \<open>^\<close> and \<open>$\<close> are the ends of the
  input, so the scan removes a hyphen at index 0 and then, further right, a hyphen that
  is the last code unit.
\<close>

definition strip_hyphens :: "js_string \<Rightarrow> js_string" where
  "strip_hyphens s =
     (let s1 = (case s of [] \<Rightarrow> [] | c # cs \<Rightarrow> if c = 45 then cs else s)
      in if s1 \<noteq> [] \<and> last s1 = 45 then butlast s1 else s1)"

text \<open>
  \<open>String.prototype.toLowerCase\<close> is the engine's Unicode case mapping (it may change
  the length of a string); it is a parameter of the model. The only fact used about it
  is that it leaves a string of \<open>a-z\<close>, \<open>0-9\<close> and \<open>-\<close> as it is.
\<close>

definition normalizeSlug :: "(js_string \<Rightarrow> js_string) \<Rightarrow> js_value \<Rightarrow> js_string" where
  "normalizeSlug toLowerCase input =
     strip_hyphens (collapse_hyphens (remove_invalid (replace_spaces
       (toLowerCase (trim (string_or_empty input))))))"

text \<open>The case mapping restricted to ASCII, and ASCII literals, for concrete runs.\<close>

definition ascii_lower :: "js_string \<Rightarrow> js_string" where
  "ascii_lower s = map (\<lambda>c. if 65 \<le> c \<and> c \<le> 90 then c + 32 else c) s"

definition of_ascii :: "string \<Rightarrow> js_string" where
  "of_ascii s = map of_char s"

text \<open>The shape of a normalised slug.\<close>

definition noDoubleHyphen :: "js_string \<Rightarrow> bool" where
  "noDoubleHyphen s = successively (\<lambda>a b. \<not> (a = 45 \<and> b = 45)) s"

definition isCleanSlug :: "js_string \<Rightarrow> bool" where
  "isCleanSlug s \<longleftrightarrow>
     list_all isSlugChar s \<and> noDoubleHyphen s \<and> (s \<noteq> [] \<longrightarrow> hd s \<noteq> 45 \<and> last s \<noteq> 45)"

section \<open>The seasons repository (src/unnamed/part_000, createSeasonsRepo)\<close>

subsection \<open>Rows and statements\<close>

text \<open>
  Modelled from the spec: the schema of the \<open>seasons\<close> table is not among the sources
  (only the column lists of the statements are). The spec's data model gives the status
  as a closed enumeration \<open>draft\<close>, \<open>active\<close>, \<open>closed\<close>.
\<close>

datatype status = Draft | Active | Closed

text \<open>
  A row, with the columns the statements name. The column \<open>id\<close> is \<open>season_id\<close> here;
  timestamps are integers (seconds, UTC).
\<close>

record season =
  season_id :: nat
  slug :: string
  name :: string
  description :: "string option"
  start_at :: int
  end_at :: int
  status :: status
  created_at :: int
  updated_at :: int

type_synonym seasons = "season list"

text \<open>
  A value thrown by a driver call: what \<open>err?.message\<close> yields (nothing when it is
  undefined) and what \<open>String(err)\<close> yields.
\<close>

datatype thrown = Thrown (message: "string option") (rendered: string)

text \<open>
  One entry of \<open>patchSeasonBySlug\<close>'s parallel arrays \<open>sets\<close> and \<open>vals\<close>:
  \<open>"name = ?"\<close> with its value, and so on.
\<close>

datatype assignment =
    SetName string
  | SetDescription "string option"
  | SetStartAt int
  | SetEndAt int

text \<open>The SQL statements of the repository, with their parameters.\<close>

datatype select_stmt =
    SelectAllOrdered
  | SelectBySlug string
  | SelectActive
  | SelectBySlugForUpdate string
  | SelectActiveForUpdate

datatype update_stmt =
    UpdateSet "assignment list" string
  | UpdateDemote string
  | UpdatePromote string

text \<open>The calls made on the mysql2 driver and connection.\<close>

datatype call =
    CreateConnection
  | BeginTransaction
  | ExecuteSelect select_stmt
  | ExecuteUpdate update_stmt
  | Commit
  | Rollback
  | End

text \<open>
  The database server behind \<open>dbConfig\<close>. \<open>faults n = Some e\<close>: the call number \<open>n\<close> of
  the history (counted from 0) throws \<open>e\<close> and has no effect.

  Modelled from the spec: the timestamps are storage-managed and the schema is not among
  the sources, so the value \<open>updated_at\<close> takes when an UPDATE matches a row is the
  parameter \<open>on_update\<close> (given the row before and after the assignment).
\<close>

record server =
  faults :: "nat \<Rightarrow> thrown option"
  on_update :: "season \<Rightarrow> season \<Rightarrow> int"

text \<open>
  The state: the table as every connection sees it, the table as the open transaction of
  the current connection sees it, and the log of the calls made with their outcomes.
\<close>

record db =
  committed :: seasons
  pending :: "seasons option"
  calls :: "(call \<times> thrown option) list"

text \<open>
  What each SELECT returns. Comparison of text is equality; \<open>LIMIT 1\<close> without an order
  takes the first matching row of the table. \<open>ORDER BY start_at DESC, id DESC\<close> is a
  stable sort on the negated keys.
\<close>

fun run_select :: "select_stmt \<Rightarrow> seasons \<Rightarrow> season list" where
  "run_select SelectAllOrdered t = sort_key (\<lambda>r. (- start_at r, - int (season_id r))) t"
| "run_select (SelectBySlug s) t = take 1 (filter (\<lambda>r. slug r = s) t)"
| "run_select SelectActive t = take 1 (filter (\<lambda>r. status r = Active) t)"
| "run_select (SelectBySlugForUpdate s) t = filter (\<lambda>r. slug r = s) t"
| "run_select SelectActiveForUpdate t = filter (\<lambda>r. status r = Active) t"

text \<open>What each UPDATE does to the table, and the number of rows it matches.\<close>

definition stamp :: "server \<Rightarrow> season \<Rightarrow> season \<Rightarrow> season" where
  "stamp S old new = new\<lparr>updated_at := on_update S old new\<rparr>"

fun apply_assignment :: "assignment \<Rightarrow> season \<Rightarrow> season" where
  "apply_assignment (SetName v) r = r\<lparr>name := v\<rparr>"
| "apply_assignment (SetDescription v) r = r\<lparr>description := v\<rparr>"
| "apply_assignment (SetStartAt v) r = r\<lparr>start_at := v\<rparr>"
| "apply_assignment (SetEndAt v) r = r\<lparr>end_at := v\<rparr>"

fun run_update :: "server \<Rightarrow> update_stmt \<Rightarrow> seasons \<Rightarrow> seasons" where
  "run_update S (UpdateSet sets s) t =
     map (\<lambda>r. if slug r = s then stamp S r (fold apply_assignment sets r) else r) t"
| "run_update S (UpdateDemote s) t =
     map (\<lambda>r. if status r = Active \<and> slug r \<noteq> s then stamp S r (r\<lparr>status := Draft\<rparr>) else r) t"
| "run_update S (UpdatePromote s) t =
     map (\<lambda>r. if slug r = s then stamp S r (r\<lparr>status := Active\<rparr>) else r) t"

fun affectedRows :: "update_stmt \<Rightarrow> seasons \<Rightarrow> nat" where
  "affectedRows (UpdateSet sets s) t = length (filter (\<lambda>r. slug r = s) t)"
| "affectedRows (UpdateDemote s) t = length (filter (\<lambda>r. status r = Active \<and> slug r \<noteq> s) t)"
| "affectedRows (UpdatePromote s) t = length (filter (\<lambda>r. slug r = s) t)"

subsection \<open>Asynchronous calls, exceptions and the connection\<close>

text \<open>
  An awaited computation runs on the state and either throws (\<open>Inl\<close>) or returns
  (\<open>Inr\<close>). \<open>await m k\<close> is \<open>const x = await m; k x\<close>; \<open>try_catch\<close> and
  \<open>try_finally\<close> are the JavaScript statements (a finalizer that throws replaces the
  outcome).
\<close>

type_synonym 'a io = "db \<Rightarrow> (thrown + 'a) \<times> db"

definition return :: "'a \<Rightarrow> 'a io" where
  "return a d = (Inr a, d)"

definition await :: "'a io \<Rightarrow> ('a \<Rightarrow> 'b io) \<Rightarrow> 'b io" where
  "await m k d = (case m d of (Inl e, d') \<Rightarrow> (Inl e, d') | (Inr a, d') \<Rightarrow> k a d')"

definition try_catch :: "'a io \<Rightarrow> (thrown \<Rightarrow> 'a io) \<Rightarrow> 'a io" where
  "try_catch m h d = (case m d of (Inl e, d') \<Rightarrow> h e d' | (Inr a, d') \<Rightarrow> (Inr a, d'))"

definition try_finally :: "'a io \<Rightarrow> unit io \<Rightarrow> 'a io" where
  "try_finally m fin d =
     (case m d of (r, d') \<Rightarrow>
        (case fin d' of (Inl e, d'') \<Rightarrow> (Inl e, d'') | (Inr _, d'') \<Rightarrow> (r, d'')))"

text \<open>
  A call on the driver: it is logged, and it throws when the server's fault plan says so.
\<close>

definition driver_call :: "server \<Rightarrow> call \<Rightarrow> (db \<Rightarrow> 'a \<times> db) \<Rightarrow> 'a io" where
  "driver_call S c effect d =
     (case faults S (length (calls d)) of
        Some e \<Rightarrow> (Inl e, d\<lparr>calls := calls d @ [(c, Some e)]\<rparr>)
      | None \<Rightarrow> (case effect d of (a, d') \<Rightarrow> (Inr a, d'\<lparr>calls := calls d @ [(c, None)]\<rparr>)))"

text \<open>
  Statements run inside the open transaction if there is one, and are committed at once
  otherwise. \<open>conn.end()\<close> discards an open transaction; mysql2's promise wrapper
  resolves it unconditionally, so it does not consult the fault plan.
\<close>

definition view :: "db \<Rightarrow> seasons" where
  "view d = (case pending d of Some t \<Rightarrow> t | None \<Rightarrow> committed d)"

definition put_view :: "seasons \<Rightarrow> db \<Rightarrow> db" where
  "put_view t d = (case pending d of Some _ \<Rightarrow> d\<lparr>pending := Some t\<rparr> | None \<Rightarrow> d\<lparr>committed := t\<rparr>)"

definition createConnection :: "server \<Rightarrow> unit io" where
  "createConnection S = driver_call S CreateConnection (\<lambda>d. ((), d\<lparr>pending := None\<rparr>))"

definition beginTransaction :: "server \<Rightarrow> unit io" where
  "beginTransaction S =
     driver_call S BeginTransaction (\<lambda>d. ((), d\<lparr>pending := Some (committed d)\<rparr>))"

definition execute_select :: "server \<Rightarrow> select_stmt \<Rightarrow> (season list) io" where
  "execute_select S q = driver_call S (ExecuteSelect q) (\<lambda>d. (run_select q (view d), d))"

definition execute_update :: "server \<Rightarrow> update_stmt \<Rightarrow> nat io" where
  "execute_update S u =
     driver_call S (ExecuteUpdate u)
       (\<lambda>d. (affectedRows u (view d), put_view (run_update S u (view d)) d))"

definition commit :: "server \<Rightarrow> unit io" where
  "commit S =
     driver_call S Commit
       (\<lambda>d. ((), case pending d of Some t \<Rightarrow> d\<lparr>committed := t, pending := None\<rparr> | None \<Rightarrow> d))"

definition rollback :: "server \<Rightarrow> unit io" where
  "rollback S = driver_call S Rollback (\<lambda>d. ((), d\<lparr>pending := None\<rparr>))"

definition end_connection :: "unit io" where
  "end_connection d = (Inr (), d\<lparr>pending := None, calls := calls d @ [(End, None)]\<rparr>)"

subsection \<open>The repository functions\<close>

definition withConn :: "server \<Rightarrow> 'a io \<Rightarrow> 'a io" where
  "withConn S fn = await (createConnection S) (\<lambda>_. try_finally fn end_connection)"

text \<open>\<open>rows[0] ?? null\<close>\<close>

definition first_or_null :: "season list \<Rightarrow> season option" where
  "first_or_null rows = (case rows of [] \<Rightarrow> None | r # _ \<Rightarrow> Some r)"

definition listSeasons :: "server \<Rightarrow> (season list) io" where
  "listSeasons S = withConn S (execute_select S SelectAllOrdered)"

definition getSeasonBySlug :: "server \<Rightarrow> string \<Rightarrow> (season option) io" where
  "getSeasonBySlug S s =
     withConn S (await (execute_select S (SelectBySlug s)) (\<lambda>rows. return (first_or_null rows)))"

definition getActiveSeason :: "server \<Rightarrow> (season option) io" where
  "getActiveSeason S =
     withConn S (await (execute_select S SelectActive) (\<lambda>rows. return (first_or_null rows)))"

text \<open>
  A property of the \<open>patch\<close> object: absent (\<open>undefined\<close>), \<open>null\<close> or a value.
  \<open>x != null\<close> holds for a value only; \<open>x !== undefined\<close> holds for \<open>null\<close> too.
  The properties \<open>name\<close> and \<open>description\<close> of the patch are \<open>patch_name\<close> and
  \<open>patch_description\<close> here (the columns have the plain names).
\<close>

datatype 'a field = Undefined | Null | Val 'a

record patch =
  patch_name :: "string field"
  patch_description :: "string field"
  startAt :: "int field"
  endAt :: "int field"

definition patch_sets :: "patch \<Rightarrow> assignment list" where
  "patch_sets p =
     (case patch_name p of Val v \<Rightarrow> [SetName v] | _ \<Rightarrow> []) @
     (case patch_description p of
        Undefined \<Rightarrow> [] | Null \<Rightarrow> [SetDescription None] | Val v \<Rightarrow> [SetDescription (Some v)]) @
     (case startAt p of Val v \<Rightarrow> [SetStartAt v] | _ \<Rightarrow> []) @
     (case endAt p of Val v \<Rightarrow> [SetEndAt v] | _ \<Rightarrow> [])"

definition patchSeasonBySlug :: "server \<Rightarrow> string \<Rightarrow> patch \<Rightarrow> nat io" where
  "patchSeasonBySlug S s p =
     (let sets = patch_sets p in
      if length sets = 0 then return 0
      else withConn S (execute_update S (UpdateSet sets s)))"

text \<open>\<open>{ ok: true }\<close> and \<open>{ ok: false, error, detail? }\<close>\<close>

datatype activate_result = OkTrue | OkFalse (error: string) (detail: "string option")

text \<open>\<open>err?.message || String(err)\<close>\<close>

definition error_detail :: "thrown \<Rightarrow> string" where
  "error_detail err =
     (case message err of Some m \<Rightarrow> if m \<noteq> [] then m else rendered err | None \<Rightarrow> rendered err)"

definition activateSeasonTx :: "server \<Rightarrow> string \<Rightarrow> activate_result io" where
  "activateSeasonTx S s =
     await (createConnection S) (\<lambda>_.
       try_finally
         (try_catch
            (await (beginTransaction S) (\<lambda>_.
             await (execute_select S (SelectBySlugForUpdate s)) (\<lambda>targetRows.
               case first_or_null targetRows of
                 None \<Rightarrow>
                   await (rollback S) (\<lambda>_. return (OkFalse ''season_not_found'' None))
               | Some target \<Rightarrow>
                   if status target = Closed
                   then await (rollback S) (\<lambda>_. return (OkFalse ''season_closed'' None))
                   else
                     await (execute_select S SelectActiveForUpdate) (\<lambda>_.
                     await (execute_update S (UpdateDemote s)) (\<lambda>_.
                     await (execute_update S (UpdatePromote s)) (\<lambda>_.
                     await (commit S) (\<lambda>_. return OkTrue)))))))
            (\<lambda>err.
               await (try_catch (rollback S) (\<lambda>_. return ())) (\<lambda>_.
               return (OkFalse ''tx_failed'' (Some (error_detail err))))))
         end_connection)"

subsection \<open>Observations used in the statements\<close>

text \<open>A sequence of activation calls, each run to completion.\<close>

fun activate_all :: "server \<Rightarrow> string list \<Rightarrow> db \<Rightarrow> db" where
  "activate_all S [] d = d"
| "activate_all S (s # ss) d = activate_all S ss (snd (activateSeasonTx S s d))"

text \<open>
  Modelled from the spec: the data model makes the slug the unique identity of a season
  (the table's declaration is not among the sources).
\<close>

definition unique_slugs :: "seasons \<Rightarrow> bool" where
  "unique_slugs t \<longleftrightarrow> distinct (map slug t)"

text \<open>The single-active invariant, and the status of the season with a given slug.\<close>

definition at_most_one_active :: "seasons \<Rightarrow> bool" where
  "at_most_one_active t \<longleftrightarrow> length (filter (\<lambda>r. status r = Active) t) \<le> 1"

definition status_of :: "seasons \<Rightarrow> string \<Rightarrow> status option" where
  "status_of t s = map_option status (find (\<lambda>r. slug r = s) t)"

text \<open>The calls a run added to the log.\<close>

definition new_calls :: "db \<Rightarrow> db \<Rightarrow> (call \<times> thrown option) list" where
  "new_calls d d' = drop (length (calls d)) (calls d')"

definition no_faults :: "server \<Rightarrow> bool" where
  "no_faults S \<longleftrightarrow> (\<forall>n. faults S n = None)"

text \<open>The calls of a successful activation, and of one refused after reading the target.\<close>

definition activation_calls :: "string \<Rightarrow> call list" where
  "activation_calls s =
     [CreateConnection, BeginTransaction, ExecuteSelect (SelectBySlugForUpdate s),
      ExecuteSelect SelectActiveForUpdate, ExecuteUpdate (UpdateDemote s),
      ExecuteUpdate (UpdatePromote s), Commit, End]"

definition rejection_calls :: "string \<Rightarrow> call list" where
  "rejection_calls s =
     [CreateConnection, BeginTransaction, ExecuteSelect (SelectBySlugForUpdate s), Rollback, End]"

text \<open>The statements between the begin of the transaction and the promote step.\<close>

fun is_tx_statement :: "call \<Rightarrow> bool" where
  "is_tx_statement BeginTransaction = True"
| "is_tx_statement (ExecuteSelect _) = True"
| "is_tx_statement (ExecuteUpdate _) = True"
| "is_tx_statement _ = False"

text \<open>The two updates of a successful activation, as one row-wise map.\<close>

definition activated_row :: "server \<Rightarrow> string \<Rightarrow> season \<Rightarrow> season" where
  "activated_row S s r =
     (if slug r = s then stamp S r (r\<lparr>status := Active\<rparr>)
      else if status r = Active then stamp S r (r\<lparr>status := Draft\<rparr>) else r)"

text \<open>
  The presence rules of a patch as the specification words them: name, start and end
  are taken from the patch when it holds a value for them, the description whenever it
  is not absent (\<open>null\<close> clears it).
\<close>

definition patched_row :: "patch \<Rightarrow> season \<Rightarrow> season" where
  "patched_row p r = r\<lparr>
     name := (case patch_name p of Val v \<Rightarrow> v | _ \<Rightarrow> name r),
     description := (case patch_description p of
                       Undefined \<Rightarrow> description r | Null \<Rightarrow> None | Val v \<Rightarrow> Some v),
     start_at := (case startAt p of Val v \<Rightarrow> v | _ \<Rightarrow> start_at r),
     end_at := (case endAt p of Val v \<Rightarrow> v | _ \<Rightarrow> end_at r)\<rparr>"

text \<open>The order of \<open>listSeasons\<close>: later start first, and on equal starts the larger id first.\<close>

definition listed_before :: "season \<Rightarrow> season \<Rightarrow> bool" where
  "listed_before a b \<longleftrightarrow>
     start_at a > start_at b \<or> (start_at a = start_at b \<and> season_id a \<ge> season_id b)"

subsection \<open>Concrete tables, servers and patches\<close>

definition reliable :: "server" where
  "reliable = \<lparr>faults = (\<lambda>_. None), on_update = (\<lambda>old new. updated_at old)\<rparr>"

definition deadlock :: thrown where
  "deadlock = Thrown (Some ''Deadlock found'') ''Error: Deadlock found''"

definition failing_at :: "nat \<Rightarrow> server" where
  "failing_at k = \<lparr>faults = (\<lambda>n. if n = k then Some deadlock else None),
                    on_update = (\<lambda>old new. updated_at old)\<rparr>"

definition mk_season :: "nat \<Rightarrow> string \<Rightarrow> int \<Rightarrow> status \<Rightarrow> season" where
  "mk_season i s t st = \<lparr>season_id = i, slug = s, name = s, description = Some ''text'',
     start_at = t, end_at = t + 10, status = st, created_at = 0, updated_at = 0\<rparr>"

definition example_db :: db where
  "example_db = \<lparr>committed = [mk_season 1 ''a'' 100 Active, mk_season 2 ''b'' 200 Draft,
      mk_season 3 ''c'' 300 Closed], pending = None, calls = []\<rparr>"

definition tied_db :: db where
  "tied_db = \<lparr>committed = [mk_season 1 ''a'' 100 Draft, mk_season 2 ''b'' 200 Draft,
      mk_season 3 ''c'' 200 Closed, mk_season 4 ''d'' 50 Draft], pending = None, calls = []\<rparr>"

definition two_active_db :: db where
  "two_active_db = \<lparr>committed = [mk_season 1 ''a'' 100 Active, mk_season 2 ''b'' 200 Active,
      mk_season 3 ''c'' 300 Draft], pending = None, calls = []\<rparr>"

definition example_patch :: patch where
  "example_patch = \<lparr>patch_name = Null, patch_description = Null, startAt = Val 150, endAt = Undefined\<rparr>"

section \<open>Properties of slug normalisation\<close>

lemma slugchar_not_space: "isSlugChar c \<Longrightarrow> \<not> isWhiteSpace c"
  by (auto simp: isSlugChar_def isAlnum_def isWhiteSpace_def)

lemma alnum_not_space: "isAlnum c \<Longrightarrow> \<not> isWhiteSpace c"
  by (auto simp: isAlnum_def isWhiteSpace_def)

lemma alnum_not_hyphen: "isAlnum c \<Longrightarrow> c \<noteq> 45"
  by (auto simp: isAlnum_def)

lemma set_collapse_hyphens: "set (collapse_hyphens s) \<subseteq> set s"
  by (induction s rule: collapse_hyphens.induct) (auto dest: set_dropWhileD)

lemma collapse_hyphens_Nil_iff: "collapse_hyphens s = [] \<longleftrightarrow> s = []"
  by (cases s) auto

lemma hd_collapse_hyphens: "hd (collapse_hyphens s) = hd s"
  by (cases s) auto

lemma noDouble_collapse: "noDoubleHyphen (collapse_hyphens s)"
proof (induction s rule: collapse_hyphens.induct)
  case 1
  show ?case by (simp add: noDoubleHyphen_def)
next
  case (2 c cs)
  show ?case
  proof (cases "c = 45")
    case True
    let ?r = "dropWhile (\<lambda>d. d = 45) cs"
    have "?r \<noteq> [] \<Longrightarrow> hd ?r \<noteq> 45"
      using hd_dropWhile[of "\<lambda>d. d = 45" cs] by simp
    with True 2 show ?thesis
      by (auto simp: noDoubleHyphen_def successively_Cons collapse_hyphens_Nil_iff
            hd_collapse_hyphens)
  next
    case False
    with 2 show ?thesis
      by (simp add: noDoubleHyphen_def successively_Cons)
  qed
qed

lemma set_strip_hyphens: "set (strip_hyphens s) \<subseteq> set s"
  by (cases s) (auto simp: strip_hyphens_def Let_def dest: in_set_butlastD)

lemma noDouble_tl: "noDoubleHyphen (c # cs) \<Longrightarrow> noDoubleHyphen cs"
  by (auto simp: noDoubleHyphen_def successively_Cons)

lemma noDouble_butlast: "noDoubleHyphen s \<Longrightarrow> noDoubleHyphen (butlast s)"
proof -
  assume a: "noDoubleHyphen s"
  show ?thesis
  proof (cases "s = []")
    case True
    then show ?thesis by (simp add: noDoubleHyphen_def)
  next
    case False
    then have "s = butlast s @ [last s]" by simp
    with a have "noDoubleHyphen (butlast s @ [last s])" by simp
    then show ?thesis
      unfolding noDoubleHyphen_def successively_append_iff by simp
  qed
qed

lemma noDouble_last_butlast:
  "noDoubleHyphen s \<Longrightarrow> last s = 45 \<Longrightarrow> butlast s \<noteq> [] \<Longrightarrow> last (butlast s) \<noteq> 45"
proof -
  assume a: "noDoubleHyphen s" and l: "last s = 45" and b: "butlast s \<noteq> []"
  from b have ne: "s \<noteq> []" by auto
  then have "s = butlast s @ [last s]" by simp
  with a have "noDoubleHyphen (butlast s @ [last s])" by simp
  with b l show ?thesis
    unfolding noDoubleHyphen_def successively_append_iff by simp
qed

lemma strip_hyphens_clean:
  assumes "noDoubleHyphen s"
  shows "noDoubleHyphen (strip_hyphens s) \<and>
    (strip_hyphens s \<noteq> [] \<longrightarrow> hd (strip_hyphens s) \<noteq> 45 \<and> last (strip_hyphens s) \<noteq> 45)"
proof -
  define s1 where "s1 = (case s of [] \<Rightarrow> [] | c # cs \<Rightarrow> if c = 45 then cs else s)"
  have n1: "noDoubleHyphen s1"
    using assms by (cases s) (auto simp: s1_def dest: noDouble_tl)
  have h1: "s1 \<noteq> [] \<Longrightarrow> hd s1 \<noteq> 45"
    using assms by (cases s) (auto simp: s1_def noDoubleHyphen_def successively_Cons)
  have eq: "strip_hyphens s = (if s1 \<noteq> [] \<and> last s1 = 45 then butlast s1 else s1)"
    by (simp add: strip_hyphens_def s1_def)
  show ?thesis
  proof (cases "s1 \<noteq> [] \<and> last s1 = 45")
    case True
    have "butlast s1 \<noteq> [] \<Longrightarrow> hd (butlast s1) = hd s1"
      by (cases s1) auto
    with True eq n1 h1 show ?thesis
      by (auto simp: noDouble_butlast noDouble_last_butlast)
  next
    case False
    with eq n1 h1 show ?thesis by auto
  qed
qed

lemma normalizeSlug_clean: "isCleanSlug (normalizeSlug lc x)"
proof -
  let ?f = "remove_invalid (replace_spaces (lc (trim (string_or_empty x))))"
  have "set (strip_hyphens (collapse_hyphens ?f)) \<subseteq> set ?f"
    using set_strip_hyphens set_collapse_hyphens by blast
  then have "list_all isSlugChar (strip_hyphens (collapse_hyphens ?f))"
    by (auto simp: list_all_iff remove_invalid_def)
  with strip_hyphens_clean[OF noDouble_collapse, of ?f] show ?thesis
    by (simp add: isCleanSlug_def normalizeSlug_def)
qed

lemma trim_clean: "isCleanSlug s \<Longrightarrow> trim s = s"
proof -
  assume c: "isCleanSlug s"
  show ?thesis
  proof (cases "s = []")
    case True
    then show ?thesis by (simp add: trim_def)
  next
    case False
    with c have h: "\<not> isWhiteSpace (hd s)" and l: "\<not> isWhiteSpace (last s)"
      by (auto simp: isCleanSlug_def list_all_iff slugchar_not_space)
    from False h have 1: "dropWhile isWhiteSpace s = s"
      by (simp add: dropWhile_eq_self_iff)
    from False l have 2: "dropWhile isWhiteSpace (rev s) = rev s"
      by (simp add: dropWhile_eq_self_iff hd_rev)
    show ?thesis by (simp add: trim_def 1 2)
  qed
qed

lemma replace_spaces_id: "\<forall>c\<in>set s. \<not> isWhiteSpace c \<Longrightarrow> replace_spaces s = s"
  by (induction s) auto

lemma collapse_hyphens_id: "noDoubleHyphen s \<Longrightarrow> collapse_hyphens s = s"
proof (induction s)
  case Nil
  show ?case by simp
next
  case (Cons c cs)
  from Cons.prems have n: "noDoubleHyphen cs" by (rule noDouble_tl)
  show ?case
  proof (cases "c = 45")
    case True
    with Cons.prems have "cs = [] \<or> hd cs \<noteq> 45"
      by (auto simp: noDoubleHyphen_def successively_Cons)
    then have "dropWhile (\<lambda>d. d = 45) cs = cs"
      by (simp add: dropWhile_eq_self_iff)
    with True Cons.IH[OF n] show ?thesis by simp
  next
    case False
    with Cons.IH[OF n] show ?thesis by simp
  qed
qed

lemma strip_hyphens_id:
  "s \<noteq> [] \<longrightarrow> hd s \<noteq> 45 \<and> last s \<noteq> 45 \<Longrightarrow> strip_hyphens s = s"
  by (cases s) (auto simp: strip_hyphens_def)

lemma normalizeSlug_fixes_clean:
  assumes lc: "\<And>s. list_all isSlugChar s \<Longrightarrow> lc s = s" and c: "isCleanSlug s"
  shows "normalizeSlug lc (JString s) = s"
proof -
  have 0: "string_or_empty (JString s) = s" by simp
  have 1: "trim s = s" using c by (rule trim_clean)
  have 2: "lc s = s" using c lc by (simp add: isCleanSlug_def)
  have 3: "replace_spaces s = s"
    using c by (intro replace_spaces_id) (auto simp: isCleanSlug_def list_all_iff slugchar_not_space)
  have 4: "remove_invalid s = s"
    using c by (simp add: remove_invalid_def isCleanSlug_def list_all_iff)
  have 5: "collapse_hyphens s = s"
    using c by (simp add: collapse_hyphens_id isCleanSlug_def)
  have 6: "strip_hyphens s = s"
    using c by (intro strip_hyphens_id) (simp add: isCleanSlug_def)
  show ?thesis
    unfolding normalizeSlug_def 0 1 2 3 4 5 6 ..
qed

lemma filter_dropWhile_disjoint:
  "(\<And>x. P x \<Longrightarrow> \<not> Q x) \<Longrightarrow> filter Q (dropWhile P xs) = filter Q xs"
  by (induction xs) auto

lemma alnum_replace_spaces: "filter isAlnum (replace_spaces s) = filter isAlnum s"
proof (induction s rule: replace_spaces.induct)
  case 1
  show ?case by simp
next
  case (2 c cs)
  have d: "filter isAlnum (dropWhile isWhiteSpace cs) = filter isAlnum cs"
    by (rule filter_dropWhile_disjoint) (auto dest: alnum_not_space)
  have h: "\<not> isAlnum 45" by (simp add: isAlnum_def)
  show ?case
  proof (cases "isWhiteSpace c")
    case True
    then have "\<not> isAlnum c" using alnum_not_space by blast
    with True 2 d h show ?thesis by simp
  next
    case False
    with 2 show ?thesis by simp
  qed
qed

lemma alnum_remove_invalid: "filter isAlnum (remove_invalid s) = filter isAlnum s"
  by (induction s) (auto simp: remove_invalid_def isSlugChar_def)

lemma alnum_collapse_hyphens: "filter isAlnum (collapse_hyphens s) = filter isAlnum s"
proof (induction s rule: collapse_hyphens.induct)
  case 1
  show ?case by simp
next
  case (2 c cs)
  have d: "filter isAlnum (dropWhile (\<lambda>d. d = 45) cs) = filter isAlnum cs"
    by (rule filter_dropWhile_disjoint) (auto dest: alnum_not_hyphen)
  have h: "\<not> isAlnum 45" by (simp add: isAlnum_def)
  show ?case
  proof (cases "c = 45")
    case True
    with 2 d h show ?thesis by simp
  next
    case False
    with 2 show ?thesis by simp
  qed
qed

lemma alnum_butlast: "s \<noteq> [] \<Longrightarrow> last s = 45 \<Longrightarrow> filter isAlnum (butlast s) = filter isAlnum s"
proof -
  assume ne: "s \<noteq> []" and l: "last s = 45"
  have h: "\<not> isAlnum 45" by (simp add: isAlnum_def)
  from ne have "filter isAlnum s = filter isAlnum (butlast s @ [last s])" by simp
  also have "\<dots> = filter isAlnum (butlast s)" using l h by simp
  finally show ?thesis by simp
qed

lemma alnum_strip_hyphens: "filter isAlnum (strip_hyphens s) = filter isAlnum s"
proof -
  have h: "\<not> isAlnum 45" by (simp add: isAlnum_def)
  define s1 where "s1 = (case s of [] \<Rightarrow> [] | c # cs \<Rightarrow> if c = 45 then cs else s)"
  have 1: "filter isAlnum s1 = filter isAlnum s"
    using h by (cases s) (auto simp: s1_def)
  have "strip_hyphens s = (if s1 \<noteq> [] \<and> last s1 = 45 then butlast s1 else s1)"
    by (simp add: strip_hyphens_def s1_def)
  then show ?thesis using 1 by (auto simp: alnum_butlast)
qed

lemma alnum_normalizeSlug:
  "filter isAlnum (normalizeSlug lc x) = filter isAlnum (lc (trim (string_or_empty x)))"
  by (simp add: normalizeSlug_def alnum_strip_hyphens alnum_collapse_hyphens
        alnum_remove_invalid alnum_replace_spaces)

lemma clean_no_alnum_empty:
  assumes "isCleanSlug s" and "filter isAlnum s = []"
  shows "s = []"
proof (rule ccontr)
  assume "s \<noteq> []"
  then obtain c cs where s: "s = c # cs" by (cases s) auto
  with assms(2) have "\<not> isAlnum c" by (auto split: if_splits)
  moreover from assms(1) s have "isSlugChar c" "c \<noteq> 45"
    by (auto simp: isCleanSlug_def)
  ultimately show False by (simp add: isSlugChar_def)
qed

lemma normalizeSlug_empty_iff:
  "normalizeSlug lc x = [] \<longleftrightarrow> \<not> (\<exists>c\<in>set (lc (trim (string_or_empty x))). isAlnum c)"
proof
  assume "normalizeSlug lc x = []"
  then have "filter isAlnum (lc (trim (string_or_empty x))) = []"
    using alnum_normalizeSlug[of lc x] by simp
  then show "\<not> (\<exists>c\<in>set (lc (trim (string_or_empty x))). isAlnum c)"
    by (simp add: filter_empty_conv)
next
  assume "\<not> (\<exists>c\<in>set (lc (trim (string_or_empty x))). isAlnum c)"
  then have "filter isAlnum (normalizeSlug lc x) = []"
    by (simp add: alnum_normalizeSlug filter_empty_conv)
  with normalizeSlug_clean[of lc x] show "normalizeSlug lc x = []"
    by (rule clean_no_alnum_empty)
qed

lemma ascii_lower_fixes: "list_all isSlugChar s \<Longrightarrow> ascii_lower s = s"
  by (induction s) (auto simp: ascii_lower_def isSlugChar_def isAlnum_def)

text \<open>
  Claim C10. \<open>normalizeSlug\<close> is idempotent; its result holds only lowercase ASCII
  letters, digits and hyphens, has no two hyphens in a row and neither starts nor ends
  with a hyphen; for \<open>null\<close>, \<open>undefined\<close> and for an input none of whose code units
  is a letter or digit after trimming and lowercasing, the result is the empty string.
  The case mapping is any function that leaves strings over \<open>[a-z0-9-]\<close> unchanged.
\<close>

theorem normalizeSlug_idempotent_clean:
  assumes lc: "\<And>s. list_all isSlugChar s \<Longrightarrow> toLowerCase s = s"
  shows "normalizeSlug toLowerCase (JString (normalizeSlug toLowerCase x)) = normalizeSlug toLowerCase x
    \<and> list_all isSlugChar (normalizeSlug toLowerCase x)
    \<and> noDoubleHyphen (normalizeSlug toLowerCase x)
    \<and> (normalizeSlug toLowerCase x \<noteq> [] \<longrightarrow>
          hd (normalizeSlug toLowerCase x) \<noteq> 45 \<and> last (normalizeSlug toLowerCase x) \<noteq> 45)
    \<and> normalizeSlug toLowerCase JNull = []
    \<and> normalizeSlug toLowerCase JUndefined = []
    \<and> ((\<forall>c\<in>set (toLowerCase (trim (string_or_empty x))). \<not> isAlnum c)
          \<longrightarrow> normalizeSlug toLowerCase x = [])"
proof -
  have c: "isCleanSlug (normalizeSlug toLowerCase x)" by (rule normalizeSlug_clean)
  have i: "normalizeSlug toLowerCase (JString (normalizeSlug toLowerCase x)) = normalizeSlug toLowerCase x"
    using lc c by (rule normalizeSlug_fixes_clean)
  have e: "toLowerCase [] = []" using lc[of "[]"] by simp
  have n: "normalizeSlug toLowerCase JNull = []" "normalizeSlug toLowerCase JUndefined = []"
    by (simp_all add: normalizeSlug_empty_iff trim_def e)
  have a: "(\<forall>c\<in>set (toLowerCase (trim (string_or_empty x))). \<not> isAlnum c)
          \<longrightarrow> normalizeSlug toLowerCase x = []"
    by (simp add: normalizeSlug_empty_iff)
  from c i n a show ?thesis by (simp add: isCleanSlug_def)
qed

theorem normalizeSlug_idempotent_clean_witness:
  "normalizeSlug ascii_lower (JString (of_ascii ''  Hello,  World -- 2024! ''))
     = of_ascii ''hello-world-2024''
   \<and> normalizeSlug ascii_lower (JString (of_ascii ''hello-world-2024''))
     = of_ascii ''hello-world-2024''
   \<and> normalizeSlug ascii_lower (JString (of_ascii '' -?!- '')) = []
   \<and> normalizeSlug ascii_lower JNull = []"
proof -
  let ?x = "JString (of_ascii ''  Hello,  World -- 2024! '')"
  let ?y = "JString (of_ascii '' -?!- '')"
  have v: "normalizeSlug ascii_lower ?x = of_ascii ''hello-world-2024''"
    by (simp add: normalizeSlug_def of_ascii_def trim_def isWhiteSpace_def ascii_lower_def
          remove_invalid_def isSlugChar_def isAlnum_def strip_hyphens_def)
  have w: "\<forall>c\<in>set (ascii_lower (trim (string_or_empty ?y))). \<not> isAlnum c"
    by (simp add: of_ascii_def trim_def isWhiteSpace_def ascii_lower_def isAlnum_def)
  have 1: "normalizeSlug ascii_lower (JString (normalizeSlug ascii_lower ?x))
             = normalizeSlug ascii_lower ?x"
    using normalizeSlug_idempotent_clean[of ascii_lower ?x, OF ascii_lower_fixes] by blast
  have 2: "normalizeSlug ascii_lower ?y = []" "normalizeSlug ascii_lower JNull = []"
    using normalizeSlug_idempotent_clean[of ascii_lower ?y, OF ascii_lower_fixes] w by blast+
  from 1 have 3: "normalizeSlug ascii_lower (JString (of_ascii ''hello-world-2024''))
             = of_ascii ''hello-world-2024''"
    unfolding v .
  from v 2 3 show ?thesis by blast
qed

section \<open>Properties of the seasons repository\<close>

subsection \<open>Rows and updates\<close>

lemmas io_defs = return_def await_def try_catch_def try_finally_def driver_call_def
  createConnection_def beginTransaction_def execute_select_def execute_update_def
  commit_def rollback_def end_connection_def view_def put_view_def withConn_def

lemma activate_committed_cases:
  "committed (snd (activateSeasonTx S s d)) = committed d
   \<or> (fst (activateSeasonTx S s d) = Inr OkTrue
      \<and> committed (snd (activateSeasonTx S s d))
          = run_update S (UpdatePromote s) (run_update S (UpdateDemote s) (committed d)))"
  unfolding activateSeasonTx_def io_defs first_or_null_def
  by (auto split: option.splits list.splits sum.splits prod.splits)

lemma filter_unique_slug:
  "distinct (map slug t) \<Longrightarrow> r \<in> set t \<Longrightarrow> filter (\<lambda>x. slug x = slug r) t = [r]"
proof (induction t)
  case Nil
  then show ?case by simp
next
  case (Cons a t)
  show ?case
  proof (cases "a = r")
    case True
    with Cons.prems have "\<forall>x\<in>set t. slug x \<noteq> slug r" by (auto simp: image_iff)
    then have "filter (\<lambda>x. slug x = slug r) t = []" by (simp add: filter_empty_conv)
    with True show ?thesis by simp
  next
    case False
    with Cons.prems have "r \<in> set t" by simp
    with Cons.prems have "slug a \<noteq> slug r" by (auto simp: image_iff)
    with Cons \<open>r \<in> set t\<close> show ?thesis by simp
  qed
qed

lemma filter_slug_le1: "distinct (map slug t) \<Longrightarrow> length (filter (\<lambda>x. slug x = s) t) \<le> 1"
proof (cases "\<exists>r\<in>set t. slug r = s")
  case True
  assume "distinct (map slug t)"
  with True filter_unique_slug show ?thesis by fastforce
next
  case False
  then have "filter (\<lambda>x. slug x = s) t = []" by (simp add: filter_empty_conv)
  then show ?thesis by simp
qed

lemma find_unique_slug:
  "distinct (map slug t) \<Longrightarrow> r \<in> set t \<Longrightarrow> find (\<lambda>x. slug x = slug r) t = Some r"
proof (induction t)
  case Nil
  then show ?case by simp
next
  case (Cons a t)
  then show ?case by (cases "a = r") force+
qed

lemma promote_demote:
  "run_update S (UpdatePromote s) (run_update S (UpdateDemote s) t) = map (activated_row S s) t"
  by (induction t) (auto simp: activated_row_def stamp_def)

lemma activated_row_slug: "slug (activated_row S s r) = slug r"
  by (simp add: activated_row_def stamp_def)

lemma activated_row_active: "status (activated_row S s r) = Active \<longleftrightarrow> slug r = s"
  by (simp add: activated_row_def stamp_def)

lemma filter_active_activated:
  "filter (\<lambda>r. status r = Active) (map (activated_row S s) t)
     = map (activated_row S s) (filter (\<lambda>r. slug r = s) t)"
  by (induction t) (simp_all add: activated_row_active)

lemma at_most_one_active_activated:
  "unique_slugs t \<Longrightarrow> at_most_one_active (map (activated_row S s) t)"
  using filter_slug_le1[of t s]
  by (simp add: at_most_one_active_def unique_slugs_def filter_active_activated)

lemma activate_step_invariant:
  assumes "unique_slugs (committed d)" and "at_most_one_active (committed d)"
  shows "unique_slugs (committed (snd (activateSeasonTx S s d)))
       \<and> at_most_one_active (committed (snd (activateSeasonTx S s d)))"
proof -
  from activate_committed_cases[of S s d]
  show ?thesis
  proof
    assume "committed (snd (activateSeasonTx S s d)) = committed d"
    with assms show ?thesis by simp
  next
    assume "fst (activateSeasonTx S s d) = Inr OkTrue
      \<and> committed (snd (activateSeasonTx S s d))
          = run_update S (UpdatePromote s) (run_update S (UpdateDemote s) (committed d))"
    then have c: "committed (snd (activateSeasonTx S s d)) = map (activated_row S s) (committed d)"
      by (simp only: promote_demote)
    have "unique_slugs (map (activated_row S s) (committed d))"
      using assms(1) by (simp add: unique_slugs_def activated_row_slug comp_def)
    with c assms(1) show ?thesis by (simp add: at_most_one_active_activated)
  qed
qed

lemma activate_all_invariant:
  "unique_slugs (committed d) \<Longrightarrow> at_most_one_active (committed d) \<Longrightarrow>
   unique_slugs (committed (activate_all S ss d))
   \<and> at_most_one_active (committed (activate_all S ss d))"
proof (induction ss arbitrary: d)
  case Nil
  then show ?case by simp
next
  case (Cons s ss)
  from activate_step_invariant[OF Cons.prems, of S s]
  show ?case using Cons.IH by simp
qed

lemma activate_ok_trace:
  assumes "activateSeasonTx S s d = (Inr OkTrue, d')"
  shows "committed d' = run_update S (UpdatePromote s) (run_update S (UpdateDemote s) (committed d))
       \<and> new_calls d d' = map (\<lambda>c. (c, None)) (activation_calls s)"
  using assms unfolding activateSeasonTx_def io_defs first_or_null_def new_calls_def activation_calls_def
  by (auto split: option.splits list.splits sum.splits prod.splits if_splits)

lemma demote_leaves_only_target_active:
  "\<forall>r\<in>set (run_update S (UpdateDemote s) t). status r = Active \<longrightarrow> slug r = s"
  by (auto simp: stamp_def)

subsection \<open>Activation\<close>

lemma activate_success:
  assumes "no_faults S"
    and "first_or_null (filter (\<lambda>r. slug r = s) (committed d)) = Some target"
    and "status target \<noteq> Closed"
  shows "activateSeasonTx S s d =
     (Inr OkTrue,
      d\<lparr>committed := run_update S (UpdatePromote s) (run_update S (UpdateDemote s) (committed d)),
        pending := None,
        calls := calls d @ map (\<lambda>c. (c, None)) (activation_calls s)\<rparr>)"
  using assms unfolding no_faults_def activateSeasonTx_def io_defs activation_calls_def
  by simp

lemma activate_closed:
  assumes "no_faults S"
    and "first_or_null (filter (\<lambda>r. slug r = s) (committed d)) = Some target"
    and "status target = Closed"
  shows "activateSeasonTx S s d =
     (Inr (OkFalse ''season_closed'' None),
      d\<lparr>pending := None, calls := calls d @ map (\<lambda>c. (c, None)) (rejection_calls s)\<rparr>)"
  using assms unfolding no_faults_def activateSeasonTx_def io_defs rejection_calls_def
  by simp

lemma activate_not_found:
  assumes "no_faults S"
    and "first_or_null (filter (\<lambda>r. slug r = s) (committed d)) = None"
  shows "activateSeasonTx S s d =
     (Inr (OkFalse ''season_not_found'' None),
      d\<lparr>pending := None, calls := calls d @ map (\<lambda>c. (c, None)) (rejection_calls s)\<rparr>)"
  using assms unfolding no_faults_def activateSeasonTx_def io_defs rejection_calls_def
  by simp

lemma target_row:
  "unique_slugs t \<Longrightarrow> r \<in> set t \<Longrightarrow> first_or_null (filter (\<lambda>x. slug x = slug r) t) = Some r"
  by (simp add: unique_slugs_def filter_unique_slug first_or_null_def)

lemma status_of_activated:
  assumes "unique_slugs t" and "r \<in> set t"
  shows "status_of (map (activated_row S s) t) (slug r) = Some (status (activated_row S s r))"
proof -
  have "find (\<lambda>x. slug x = slug r) (map (activated_row S s) t)
          = map_option (activated_row S s) (find (\<lambda>x. slug x = slug r) t)"
    by (induction t) (simp_all add: activated_row_slug)
  with assms show ?thesis
    by (simp add: status_of_def unique_slugs_def find_unique_slug)
qed

text \<open>
  Claim C1. On a table with unique slugs and at most one active row, after every call of
  a sequence of \<open>activateSeasonTx\<close> calls (whatever the slugs, and whichever calls the
  server makes throw) at most one season is active. A call that returns \<open>{ok: true}\<close>
  has committed the promote step applied to the result of the demote step, after the
  demote step no row but the target is active, and the calls were made in the order of
  \<open>activation_calls\<close>: demote before promote.
\<close>

theorem single_active_invariant:
  assumes "unique_slugs (committed d)" and "at_most_one_active (committed d)"
  shows "(\<forall>k. at_most_one_active (committed (activate_all S (take k ss) d)))
       \<and> (\<forall>s d0 d1. activateSeasonTx S s d0 = (Inr OkTrue, d1) \<longrightarrow>
            committed d1 = run_update S (UpdatePromote s)
                             (run_update S (UpdateDemote s) (committed d0))
            \<and> (\<forall>r\<in>set (run_update S (UpdateDemote s) (committed d0)).
                  status r = Active \<longrightarrow> slug r = s)
            \<and> map fst (new_calls d0 d1) = activation_calls s)"
proof -
  have 1: "\<forall>k. at_most_one_active (committed (activate_all S (take k ss) d))"
    using activate_all_invariant[OF assms] by blast
  have 2: "\<forall>s d0 d1. activateSeasonTx S s d0 = (Inr OkTrue, d1) \<longrightarrow>
            committed d1 = run_update S (UpdatePromote s)
                             (run_update S (UpdateDemote s) (committed d0))
            \<and> (\<forall>r\<in>set (run_update S (UpdateDemote s) (committed d0)).
                  status r = Active \<longrightarrow> slug r = s)
            \<and> map fst (new_calls d0 d1) = activation_calls s"
  proof (intro allI impI)
    fix s d0 d1
    assume a: "activateSeasonTx S s d0 = (Inr OkTrue, d1)"
    from activate_ok_trace[OF a] have "map fst (new_calls d0 d1) = activation_calls s"
      by (simp add: comp_def)
    with activate_ok_trace[OF a] demote_leaves_only_target_active[of S s "committed d0"]
    show "committed d1 = run_update S (UpdatePromote s)
                             (run_update S (UpdateDemote s) (committed d0))
            \<and> (\<forall>r\<in>set (run_update S (UpdateDemote s) (committed d0)).
                  status r = Active \<longrightarrow> slug r = s)
            \<and> map fst (new_calls d0 d1) = activation_calls s"
      by blast
  qed
  from 1 2 show ?thesis by blast
qed

lemma example_db_wf:
  "unique_slugs (committed example_db)" "at_most_one_active (committed example_db)"
  by (simp_all add: example_db_def mk_season_def unique_slugs_def at_most_one_active_def)

theorem single_active_invariant_witness:
  "unique_slugs (committed example_db) \<and> at_most_one_active (committed example_db)
   \<and> at_most_one_active (committed (activate_all reliable [''b'', ''c'', ''zz'', ''a''] example_db))
   \<and> map status (committed (activate_all reliable [''b'', ''c'', ''zz'', ''a''] example_db))
       = [Active, Draft, Closed]
   \<and> map status (committed (activate_all reliable [''b'', ''c''] example_db))
       = [Draft, Active, Closed]"
proof -
  have "at_most_one_active (committed (activate_all reliable
           (take 4 [''b'', ''c'', ''zz'', ''a'']) example_db))"
    using single_active_invariant[OF example_db_wf, of reliable "[''b'', ''c'', ''zz'', ''a'']"]
    by blast
  then have 1: "at_most_one_active (committed (activate_all reliable
           [''b'', ''c'', ''zz'', ''a''] example_db))"
    by simp
  have 2: "map status (committed (activate_all reliable [''b'', ''c'', ''zz'', ''a''] example_db))
       = [Active, Draft, Closed]"
    by code_simp
  have 3: "map status (committed (activate_all reliable [''b'', ''c''] example_db))
       = [Draft, Active, Closed]"
    by code_simp
  from example_db_wf 1 2 3 show ?thesis by blast
qed

lemma demote_keeps_closed:
  "map (\<lambda>r. status r = Closed) (run_update S (UpdateDemote s) t) = map (\<lambda>r. status r = Closed) t"
  by (induction t) (auto simp: stamp_def)

text \<open>
  Claim C2. With distinct seasons \<open>A\<close> (active) and \<open>B\<close> (not closed) in the table and
  no storage failure, \<open>activateSeasonTx\<close> on \<open>B\<close>'s slug returns \<open>{ok: true}\<close>, leaves
  \<open>A\<close> as draft and \<open>B\<close> as active; and the demote statement never changes which rows
  are closed.
\<close>

theorem demotion_without_auto_close:
  assumes "no_faults S" and "unique_slugs (committed d)"
    and "A \<in> set (committed d)" and "B \<in> set (committed d)" and "A \<noteq> B"
    and "status A = Active" and "status B \<noteq> Closed"
  shows "fst (activateSeasonTx S (slug B) d) = Inr OkTrue
    \<and> status_of (committed (snd (activateSeasonTx S (slug B) d))) (slug A) = Some Draft
    \<and> status_of (committed (snd (activateSeasonTx S (slug B) d))) (slug B) = Some Active
    \<and> (\<forall>s t. map (\<lambda>r. status r = Closed) (run_update S (UpdateDemote s) t)
               = map (\<lambda>r. status r = Closed) t)"
proof -
  let ?t = "committed d"
  from assms have ne: "slug A \<noteq> slug B"
    by (auto simp: unique_slugs_def distinct_map dest: inj_onD)
  have run: "activateSeasonTx S (slug B) d =
     (Inr OkTrue,
      d\<lparr>committed := run_update S (UpdatePromote (slug B)) (run_update S (UpdateDemote (slug B)) ?t),
        pending := None,
        calls := calls d @ map (\<lambda>c. (c, None)) (activation_calls (slug B))\<rparr>)"
    using assms(1) target_row[OF assms(2) assms(4)] assms(7) by (rule activate_success)
  then have c: "committed (snd (activateSeasonTx S (slug B) d)) = map (activated_row S (slug B)) ?t"
    by (simp add: promote_demote del: run_update.simps)
  have a: "status (activated_row S (slug B) A) = Draft"
    using ne assms(6) by (simp add: activated_row_def stamp_def)
  have b: "status (activated_row S (slug B) B) = Active"
    by (simp add: activated_row_active)
  have r1: "fst (activateSeasonTx S (slug B) d) = Inr OkTrue"
    using run by simp
  have sa: "status_of (committed (snd (activateSeasonTx S (slug B) d))) (slug A) = Some Draft"
    unfolding c using status_of_activated[OF assms(2) assms(3), of S "slug B"] a by simp
  have sb: "status_of (committed (snd (activateSeasonTx S (slug B) d))) (slug B) = Some Active"
    unfolding c using status_of_activated[OF assms(2) assms(4), of S "slug B"] b by simp
  have dk: "\<forall>s t. map (\<lambda>r. status r = Closed) (run_update S (UpdateDemote s) t)
               = map (\<lambda>r. status r = Closed) t"
    using demote_keeps_closed by blast
  from r1 sa sb dk show ?thesis by blast
qed

theorem demotion_without_auto_close_witness:
  "fst (activateSeasonTx reliable ''b'' example_db) = Inr OkTrue
   \<and> status_of (committed (snd (activateSeasonTx reliable ''b'' example_db))) ''a'' = Some Draft
   \<and> status_of (committed (snd (activateSeasonTx reliable ''b'' example_db))) ''b'' = Some Active
   \<and> status_of (committed (snd (activateSeasonTx reliable ''b'' example_db))) ''c'' = Some Closed"
proof -
  let ?A = "mk_season 1 ''a'' 100 Active" and ?B = "mk_season 2 ''b'' 200 Draft"
  have h: "no_faults reliable" "?A \<in> set (committed example_db)" "?B \<in> set (committed example_db)"
    "?A \<noteq> ?B" "status ?A = Active" "status ?B \<noteq> Closed" "slug ?A = ''a''" "slug ?B = ''b''"
    by (simp_all add: no_faults_def reliable_def example_db_def mk_season_def)
  have c: "status_of (committed (snd (activateSeasonTx reliable ''b'' example_db))) ''c'' = Some Closed"
    by code_simp
  from demotion_without_auto_close[OF h(1) example_db_wf(1) h(2) h(3) h(4) h(5) h(6)] c
  show ?thesis unfolding h(7) h(8) by blast
qed

text \<open>
  Claim C3. For a season whose status is closed (and no storage failure),
  \<open>activateSeasonTx\<close> on its slug returns \<open>{ok: false, error: 'season_closed'}\<close>, the
  table is as before, and the calls made are: connect, begin, read the target, roll
  back, end.
\<close>

theorem closed_season_not_reactivated:
  assumes "no_faults S" and "unique_slugs (committed d)"
    and "r \<in> set (committed d)" and "status r = Closed"
  shows "fst (activateSeasonTx S (slug r) d) = Inr (OkFalse ''season_closed'' None)
    \<and> committed (snd (activateSeasonTx S (slug r) d)) = committed d
    \<and> map fst (new_calls d (snd (activateSeasonTx S (slug r) d))) = rejection_calls (slug r)"
  using activate_closed[OF assms(1) target_row[OF assms(2) assms(3)] assms(4)]
  by (simp add: new_calls_def comp_def)

theorem closed_season_not_reactivated_witness:
  "fst (activateSeasonTx reliable ''c'' example_db) = Inr (OkFalse ''season_closed'' None)
   \<and> committed (snd (activateSeasonTx reliable ''c'' example_db)) = committed example_db
   \<and> map fst (new_calls example_db (snd (activateSeasonTx reliable ''c'' example_db)))
       = [CreateConnection, BeginTransaction, ExecuteSelect (SelectBySlugForUpdate ''c''),
          Rollback, End]"
proof -
  let ?C = "mk_season 3 ''c'' 300 Closed"
  have h: "no_faults reliable" "?C \<in> set (committed example_db)" "status ?C = Closed"
    "slug ?C = ''c''"
    by (simp_all add: no_faults_def reliable_def example_db_def mk_season_def)
  from closed_season_not_reactivated[OF h(1) example_db_wf(1) h(2) h(3)]
  show ?thesis unfolding h(4) rejection_calls_def by blast
qed

text \<open>
  Claim C4. For a slug that no row has (and no storage failure), \<open>activateSeasonTx\<close>
  returns \<open>{ok: false, error: 'season_not_found'}\<close>, the table is as before, and the
  calls made are: connect, begin, read the target, roll back, end (no UPDATE).
\<close>

theorem unknown_slug_not_found:
  assumes "no_faults S" and "s \<notin> slug ` set (committed d)"
  shows "fst (activateSeasonTx S s d) = Inr (OkFalse ''season_not_found'' None)
    \<and> committed (snd (activateSeasonTx S s d)) = committed d
    \<and> map fst (new_calls d (snd (activateSeasonTx S s d))) = rejection_calls s"
proof -
  from assms(2) have "filter (\<lambda>r. slug r = s) (committed d) = []"
    by (auto simp: filter_empty_conv)
  then have "first_or_null (filter (\<lambda>r. slug r = s) (committed d)) = None"
    by (simp add: first_or_null_def)
  from activate_not_found[OF assms(1) this] show ?thesis
    by (simp add: new_calls_def comp_def)
qed

theorem unknown_slug_not_found_witness:
  "fst (activateSeasonTx reliable ''zz'' example_db) = Inr (OkFalse ''season_not_found'' None)
   \<and> committed (snd (activateSeasonTx reliable ''zz'' example_db)) = committed example_db
   \<and> map fst (new_calls example_db (snd (activateSeasonTx reliable ''zz'' example_db)))
       = [CreateConnection, BeginTransaction, ExecuteSelect (SelectBySlugForUpdate ''zz''),
          Rollback, End]"
proof -
  have h: "no_faults reliable" "''zz'' \<notin> slug ` set (committed example_db)"
    by (simp_all add: no_faults_def reliable_def example_db_def mk_season_def)
  from unknown_slug_not_found[OF h] show ?thesis unfolding rejection_calls_def by blast
qed

lemma only_active_row:
  assumes "at_most_one_active t" and "r \<in> set t" and "x \<in> set t"
    and "status r = Active" and "status x = Active"
  shows "x = r"
proof -
  define f where "f = filter (\<lambda>r. status r = Active) t"
  from assms have m: "r \<in> set f" "x \<in> set f" by (simp_all add: f_def)
  from assms(1) have "length f \<le> 1" by (simp add: at_most_one_active_def f_def)
  with m show ?thesis by (cases f) auto
qed

lemma find_slug_map:
  assumes "\<And>x. slug (g x) = slug x"
  shows "find (\<lambda>x. slug x = s) (map g t) = map_option g (find (\<lambda>x. slug x = s) t)"
  by (induction t) (simp_all add: assms)

lemma demote_keeps_target:
  assumes "unique_slugs t" and "r \<in> set t"
  shows "find (\<lambda>x. slug x = slug r) (run_update S (UpdateDemote (slug r)) t) = Some r"
proof -
  let ?g = "\<lambda>x. if status x = Active \<and> slug x \<noteq> slug r then stamp S x (x\<lparr>status := Draft\<rparr>) else x"
  have sl: "\<And>x. slug (?g x) = slug x" by (simp add: stamp_def)
  have "find (\<lambda>x. slug x = slug r) (map ?g t) = map_option ?g (find (\<lambda>x. slug x = slug r) t)"
    using sl by (rule find_slug_map)
  also have "\<dots> = Some (?g r)"
    using assms by (simp add: unique_slugs_def find_unique_slug)
  also have "?g r = r" by simp
  finally show ?thesis by simp
qed

lemma promote_sets_target:
  assumes "unique_slugs t" and "r \<in> set t"
  shows "find (\<lambda>x. slug x = slug r) (map (activated_row S (slug r)) t)
           = Some (stamp S r (r\<lparr>status := Active\<rparr>))"
proof -
  have "find (\<lambda>x. slug x = slug r) (map (activated_row S (slug r)) t)
          = map_option (activated_row S (slug r)) (find (\<lambda>x. slug x = slug r) t)"
    using activated_row_slug by (rule find_slug_map)
  also have "\<dots> = Some (activated_row S (slug r) r)"
    using assms by (simp add: unique_slugs_def find_unique_slug)
  finally show ?thesis by (simp add: activated_row_def)
qed

lemma other_slug:
  assumes "unique_slugs t" and "r \<in> set t" and "x \<in> set t" and "x \<noteq> r"
  shows "slug x \<noteq> slug r"
  using assms by (auto simp: unique_slugs_def distinct_map dest: inj_onD)

text \<open>
  Claim C5, as amended. For a season that is active (in a table with unique slugs, and no
  storage failure), \<open>activateSeasonTx\<close> on its slug returns \<open>{ok: true}\<close> after the
  calls of \<open>activation_calls\<close>. The demote step leaves the target row as it is
  (\<open>slug <> ?\<close>), the promote step sets its status to active again, and the committed
  table is the promote step applied to the result of the demote step. Afterwards the
  active seasons are exactly the target; every season that was not active keeps its
  status, and every other season that was active (an accidental duplicate) is now
  draft. When the target was the only active season, every status is as it was.
\<close>

theorem reactivation_idempotent:
  assumes "no_faults S" and "unique_slugs (committed d)"
    and "r \<in> set (committed d)" and "status r = Active"
  shows "fst (activateSeasonTx S (slug r) d) = Inr OkTrue
    \<and> map fst (new_calls d (snd (activateSeasonTx S (slug r) d))) = activation_calls (slug r)
    \<and> find (\<lambda>x. slug x = slug r) (run_update S (UpdateDemote (slug r)) (committed d)) = Some r
    \<and> committed (snd (activateSeasonTx S (slug r) d))
        = run_update S (UpdatePromote (slug r)) (run_update S (UpdateDemote (slug r)) (committed d))
    \<and> find (\<lambda>x. slug x = slug r) (committed (snd (activateSeasonTx S (slug r) d)))
        = Some (stamp S r (r\<lparr>status := Active\<rparr>))
    \<and> map slug (filter (\<lambda>x. status x = Active) (committed (snd (activateSeasonTx S (slug r) d))))
        = [slug r]
    \<and> map slug (committed (snd (activateSeasonTx S (slug r) d))) = map slug (committed d)
    \<and> (\<forall>x\<in>set (committed d). status x \<noteq> Active \<longrightarrow>
          status_of (committed (snd (activateSeasonTx S (slug r) d))) (slug x) = Some (status x))
    \<and> (\<forall>x\<in>set (committed d). status x = Active \<and> x \<noteq> r \<longrightarrow>
          status_of (committed (snd (activateSeasonTx S (slug r) d))) (slug x) = Some Draft)
    \<and> (at_most_one_active (committed d) \<longrightarrow>
          map status (committed (snd (activateSeasonTx S (slug r) d))) = map status (committed d))"
proof -
  let ?t = "committed d"
  let ?t' = "committed (snd (activateSeasonTx S (slug r) d))"
  from assms(4) have nc: "status r \<noteq> Closed" by simp
  have run: "activateSeasonTx S (slug r) d =
     (Inr OkTrue,
      d\<lparr>committed := run_update S (UpdatePromote (slug r)) (run_update S (UpdateDemote (slug r)) ?t),
        pending := None,
        calls := calls d @ map (\<lambda>c. (c, None)) (activation_calls (slug r))\<rparr>)"
    using assms(1) target_row[OF assms(2) assms(3)] nc by (rule activate_success)
  have r1: "fst (activateSeasonTx S (slug r) d) = Inr OkTrue"
    using run by simp
  have r2: "map fst (new_calls d (snd (activateSeasonTx S (slug r) d))) = activation_calls (slug r)"
    using run by (simp add: new_calls_def comp_def)
  have r3: "find (\<lambda>x. slug x = slug r) (run_update S (UpdateDemote (slug r)) ?t) = Some r"
    using assms(2) assms(3) by (rule demote_keeps_target)
  have r4: "?t' = run_update S (UpdatePromote (slug r)) (run_update S (UpdateDemote (slug r)) ?t)"
    using run by (simp del: run_update.simps)
  then have c: "?t' = map (activated_row S (slug r)) ?t"
    by (simp only: promote_demote)
  have r5: "find (\<lambda>x. slug x = slug r) ?t' = Some (stamp S r (r\<lparr>status := Active\<rparr>))"
    unfolding c using assms(2) assms(3) by (rule promote_sets_target)
  have f: "filter (\<lambda>x. slug x = slug r) ?t = [r]"
    using assms(2) assms(3) by (simp add: unique_slugs_def filter_unique_slug)
  have r6: "map slug (filter (\<lambda>x. status x = Active) ?t') = [slug r]"
    unfolding c by (simp add: filter_active_activated f activated_row_slug)
  have r7: "map slug ?t' = map slug ?t"
    unfolding c by (simp add: comp_def activated_row_slug)
  have r8: "\<forall>x\<in>set ?t. status x \<noteq> Active \<longrightarrow> status_of ?t' (slug x) = Some (status x)"
  proof (intro ballI impI)
    fix x assume x: "x \<in> set ?t" and na: "status x \<noteq> Active"
    from na assms(4) have "x \<noteq> r" by auto
    with assms(2) assms(3) x have "slug x \<noteq> slug r" by (rule other_slug)
    with na have "status (activated_row S (slug r) x) = status x"
      by (simp add: activated_row_def)
    with status_of_activated[OF assms(2) x, of S "slug r"]
    show "status_of ?t' (slug x) = Some (status x)" unfolding c by simp
  qed
  have r9: "\<forall>x\<in>set ?t. status x = Active \<and> x \<noteq> r \<longrightarrow> status_of ?t' (slug x) = Some Draft"
  proof (intro ballI impI, elim conjE)
    fix x assume x: "x \<in> set ?t" and a: "status x = Active" and ne: "x \<noteq> r"
    from assms(2) assms(3) x ne have "slug x \<noteq> slug r" by (rule other_slug)
    with a have "status (activated_row S (slug r) x) = Draft"
      by (simp add: activated_row_def stamp_def)
    with status_of_activated[OF assms(2) x, of S "slug r"]
    show "status_of ?t' (slug x) = Some Draft" unfolding c by simp
  qed
  have r10: "at_most_one_active ?t \<longrightarrow> map status ?t' = map status ?t"
  proof
    assume one: "at_most_one_active ?t"
    have "\<forall>x\<in>set ?t. status (activated_row S (slug r) x) = status x"
    proof
      fix x assume x: "x \<in> set ?t"
      show "status (activated_row S (slug r) x) = status x"
      proof (cases "status x = Active")
        case True
        with only_active_row[OF one assms(3) x assms(4)] have "x = r" by simp
        with assms(4) show ?thesis by (simp add: activated_row_def stamp_def)
      next
        case False
        with assms(4) have "x \<noteq> r" by auto
        with assms(2) assms(3) x have "slug x \<noteq> slug r" by (rule other_slug)
        with False show ?thesis by (simp add: activated_row_def)
      qed
    qed
    then show "map status ?t' = map status ?t"
      unfolding c by (simp add: comp_def)
  qed
  show ?thesis
    by (intro conjI) (fact r1 r2 r3 r4 r5 r6 r7 r8 r9 r10)+
qed

lemma two_active_db_facts:
  "no_faults reliable" "unique_slugs (committed two_active_db)"
  "mk_season 1 ''a'' 100 Active \<in> set (committed two_active_db)"
  "status (mk_season 1 ''a'' 100 Active) = Active"
  "slug (mk_season 1 ''a'' 100 Active) = ''a''"
  "mk_season 2 ''b'' 200 Active \<in> set (committed two_active_db)"
  "mk_season 3 ''c'' 300 Draft \<in> set (committed two_active_db)"
  by (simp_all add: no_faults_def reliable_def two_active_db_def mk_season_def unique_slugs_def)

theorem reactivation_idempotent_witness:
  "fst (activateSeasonTx reliable ''a'' two_active_db) = Inr OkTrue
   \<and> map slug (filter (\<lambda>x. status x = Active)
        (committed (snd (activateSeasonTx reliable ''a'' two_active_db)))) = [''a'']
   \<and> status_of (committed (snd (activateSeasonTx reliable ''a'' two_active_db))) ''b'' = Some Draft
   \<and> status_of (committed (snd (activateSeasonTx reliable ''a'' two_active_db))) ''c'' = Some Draft
   \<and> map fst (new_calls two_active_db (snd (activateSeasonTx reliable ''a'' two_active_db)))
       = activation_calls ''a''"
proof -
  let ?A = "mk_season 1 ''a'' 100 Active"
  let ?B = "mk_season 2 ''b'' 200 Active"
  let ?C = "mk_season 3 ''c'' 300 Draft"
  note t = reactivation_idempotent[OF two_active_db_facts(1) two_active_db_facts(2)
             two_active_db_facts(3) two_active_db_facts(4), unfolded two_active_db_facts(5)]
  have b: "status ?B = Active \<and> ?B \<noteq> ?A" "slug ?B = ''b''"
    and c: "status ?C \<noteq> Active" "slug ?C = ''c''" "status ?C = Draft"
    by (simp_all add: mk_season_def)
  from t two_active_db_facts(6) b(1)
  have sb: "status_of (committed (snd (activateSeasonTx reliable ''a'' two_active_db))) (slug ?B) = Some Draft"
    by blast
  from t two_active_db_facts(7) c(1)
  have sc: "status_of (committed (snd (activateSeasonTx reliable ''a'' two_active_db))) (slug ?C) = Some (status ?C)"
    by blast
  from t sb sc show ?thesis unfolding b(2) c(2) c(3) by blast
qed

text \<open>
  On a table with two active seasons the re-activation of one of them changes the status
  of the other: the statuses \<open>[active, active, draft]\<close> become
  \<open>[active, draft, draft]\<close>.
\<close>

theorem reactivation_two_active_counterexample:
  "mk_season 1 ''a'' 100 Active \<in> set (committed two_active_db)
   \<and> status (mk_season 1 ''a'' 100 Active) = Active
   \<and> slug (mk_season 1 ''a'' 100 Active) = ''a''
   \<and> fst (activateSeasonTx reliable ''a'' two_active_db) = Inr OkTrue
   \<and> map status (committed two_active_db) = [Active, Active, Draft]
   \<and> map status (committed (snd (activateSeasonTx reliable ''a'' two_active_db)))
       = [Active, Draft, Draft]
   \<and> map status (committed (snd (activateSeasonTx reliable ''a'' two_active_db)))
       \<noteq> map status (committed two_active_db)"
  by code_simp

subsection \<open>Failure inside the transaction\<close>

lemma error_detail_message: "message e = Some m \<Longrightarrow> m \<noteq> [] \<Longrightarrow> error_detail e = m"
  by (simp add: error_detail_def)

lemma activate_throw_trace:
  assumes "activateSeasonTx S s d = (res, d')"
    and "(c, Some e) \<in> set (new_calls d d')" and "is_tx_statement c"
  shows "res = Inr (OkFalse ''tx_failed'' (Some (error_detail e)))
       \<and> committed d' = committed d \<and> pending d' = None
       \<and> map fst (take 3 (rev (new_calls d d'))) = [End, Rollback, c]
       \<and> (Commit, None) \<notin> set (new_calls d d')"
  using assms unfolding activateSeasonTx_def io_defs first_or_null_def new_calls_def
  by (auto split: option.splits list.splits sum.splits prod.splits if_splits)

lemma activate_ok_committed:
  assumes "activateSeasonTx S s d = (Inr OkTrue, d')"
  shows "(Commit, None) \<in> set (new_calls d d') \<and> (\<forall>c e. (c, Some e) \<notin> set (new_calls d d'))"
  using activate_ok_trace[OF assms] by (auto simp: activation_calls_def)

text \<open>
  Claim C6. In a run of \<open>activateSeasonTx\<close> in which the begin of the transaction or
  one of its SELECT and UPDATE statements throws \<open>e\<close>, the result is
  \<open>{ok: false, error: 'tx_failed', detail}\<close> with \<open>detail = e?.message || String(e)\<close>
  (the message of \<open>e\<close> when it has a non-empty one), the throwing call is followed by
  the rollback and the end of the connection, nothing was committed and the table is as
  before. A run that returns \<open>{ok: true}\<close> has committed, and none of its calls threw.
\<close>

theorem failed_transaction_rolled_back:
  assumes "activateSeasonTx S s d = (res, d')"
  shows "(\<forall>c e. (c, Some e) \<in> set (new_calls d d') \<and> is_tx_statement c \<longrightarrow>
            res = Inr (OkFalse ''tx_failed'' (Some (error_detail e)))
          \<and> committed d' = committed d \<and> pending d' = None
          \<and> map fst (take 3 (rev (new_calls d d'))) = [End, Rollback, c]
          \<and> (Commit, None) \<notin> set (new_calls d d')
          \<and> (\<forall>m. message e = Some m \<and> m \<noteq> [] \<longrightarrow> error_detail e = m))
       \<and> (res = Inr OkTrue \<longrightarrow>
            (Commit, None) \<in> set (new_calls d d')
          \<and> (\<forall>c e. (c, Some e) \<notin> set (new_calls d d')))"
proof -
  have 1: "\<forall>c e. (c, Some e) \<in> set (new_calls d d') \<and> is_tx_statement c \<longrightarrow>
            res = Inr (OkFalse ''tx_failed'' (Some (error_detail e)))
          \<and> committed d' = committed d \<and> pending d' = None
          \<and> map fst (take 3 (rev (new_calls d d'))) = [End, Rollback, c]
          \<and> (Commit, None) \<notin> set (new_calls d d')
          \<and> (\<forall>m. message e = Some m \<and> m \<noteq> [] \<longrightarrow> error_detail e = m)"
    using activate_throw_trace[OF assms] error_detail_message by blast
  have 2: "res = Inr OkTrue \<longrightarrow>
            (Commit, None) \<in> set (new_calls d d')
          \<and> (\<forall>c e. (c, Some e) \<notin> set (new_calls d d'))"
    using activate_ok_committed assms by blast
  from 1 2 show ?thesis by blast
qed

theorem failed_transaction_rolled_back_witness:
  "activateSeasonTx (failing_at 4) ''b'' example_db
     = (Inr (OkFalse ''tx_failed'' (Some ''Deadlock found'')),
        example_db\<lparr>calls := [(CreateConnection, None), (BeginTransaction, None),
           (ExecuteSelect (SelectBySlugForUpdate ''b''), None),
           (ExecuteSelect SelectActiveForUpdate, None),
           (ExecuteUpdate (UpdateDemote ''b''), Some deadlock),
           (Rollback, None), (End, None)]\<rparr>)
   \<and> error_detail deadlock = ''Deadlock found''"
proof -
  let ?d' = "example_db\<lparr>calls := [(CreateConnection, None), (BeginTransaction, None),
           (ExecuteSelect (SelectBySlugForUpdate ''b''), None),
           (ExecuteSelect SelectActiveForUpdate, None),
           (ExecuteUpdate (UpdateDemote ''b''), Some deadlock),
           (Rollback, None), (End, None)]\<rparr>"
  have run: "activateSeasonTx (failing_at 4) ''b'' example_db
     = (Inr (OkFalse ''tx_failed'' (Some (error_detail deadlock))), ?d')"
    by (simp add: activateSeasonTx_def io_defs first_or_null_def failing_at_def example_db_def
          mk_season_def stamp_def)
  have m: "(ExecuteUpdate (UpdateDemote ''b''), Some deadlock) \<in> set (new_calls example_db ?d')"
    "is_tx_statement (ExecuteUpdate (UpdateDemote ''b''))"
    "message deadlock = Some ''Deadlock found''" "''Deadlock found'' \<noteq> []"
    by (simp_all add: new_calls_def example_db_def deadlock_def)
  from failed_transaction_rolled_back[OF run] m
  have "error_detail deadlock = ''Deadlock found''" by blast
  with run show ?thesis by simp
qed

subsection \<open>Patching\<close>

lemma patched_description_null:
  "patch_description p = Null \<Longrightarrow> description (stamp S r (patched_row p r)) = None"
  by (simp add: stamp_def patched_row_def)

lemma patched_name_null: "patch_name p = Null \<Longrightarrow> name (stamp S r (patched_row p r)) = name r"
  by (simp add: stamp_def patched_row_def)

lemma null_description_cleared:
  assumes "patch_description p = Null"
    and "r' \<in> set (map (\<lambda>r. if slug r = s then stamp S r (patched_row p r) else r) t)"
    and "slug r' = s"
  shows "description r' = None"
proof -
  let ?g = "\<lambda>r. if slug r = s then stamp S r (patched_row p r) else r"
  from assms(2) have "r' \<in> ?g ` set t" by (simp only: set_map)
  then obtain r where r: "r \<in> set t" "r' = ?g r" by (rule imageE)
  show ?thesis
  proof (cases "slug r = s")
    case True
    with r have "r' = stamp S r (patched_row p r)" by simp
    with assms(1) show ?thesis by (simp only: patched_description_null)
  next
    case False
    with r have "r' = r" by simp
    with False assms(3) show ?thesis by simp
  qed
qed

lemma null_name_ignored:
  assumes "patch_name p = Null"
  shows "map name (map (\<lambda>r. if slug r = s then stamp S r (patched_row p r) else r) t) = map name t"
proof -
  have "\<And>r. name (if slug r = s then stamp S r (patched_row p r) else r) = name r"
    using assms by (simp add: patched_name_null)
  then show ?thesis by (simp add: comp_def)
qed

lemma fold_patch_sets: "fold apply_assignment (patch_sets p) r = patched_row p r"
  by (cases "patch_name p"; cases "patch_description p"; cases "startAt p"; cases "endAt p")
     (simp_all add: patch_sets_def patched_row_def)

lemma patch_runs:
  assumes "no_faults S" and "patch_sets p \<noteq> []"
  shows "patchSeasonBySlug S s p d =
     (Inr (length (filter (\<lambda>r. slug r = s) (committed d))),
      d\<lparr>committed := map (\<lambda>r. if slug r = s then stamp S r (patched_row p r) else r) (committed d),
        pending := None,
        calls := calls d @ [(CreateConnection, None),
                            (ExecuteUpdate (UpdateSet (patch_sets p) s), None), (End, None)]\<rparr>)"
  using assms unfolding no_faults_def patchSeasonBySlug_def io_defs
  by (simp add: fold_patch_sets Let_def)

lemma patch_committed_cases: "committed (snd (patchSeasonBySlug S s p d)) = committed d
        \<or> committed (snd (patchSeasonBySlug S s p d))
          = map (\<lambda>r. if slug r = s then stamp S r (patched_row p r) else r) (committed d)"
      unfolding patchSeasonBySlug_def io_defs
      by (auto simp: Let_def fold_patch_sets split: option.splits)

text \<open>
  Claim C7. \<open>patchSeasonBySlug\<close> puts name, start and end into the UPDATE exactly when
  the patch holds a value for them (\<open>null\<close> and absent are ignored), and the
  description exactly when it is not absent, a \<open>null\<close> description as SQL NULL. So a
  patch that runs without storage failure rewrites the rows of the slug as
  \<open>patched_row\<close> says; a \<open>null\<close> description clears the stored description, and a
  \<open>null\<close> name leaves every name as it was.
\<close>

theorem patch_presence_rules:
  "(SetName v \<in> set (patch_sets p) \<longleftrightarrow> patch_name p = Val v)
   \<and> (SetDescription dv \<in> set (patch_sets p) \<longleftrightarrow>
        patch_description p \<noteq> Undefined
        \<and> dv = (case patch_description p of Val x \<Rightarrow> Some x | _ \<Rightarrow> None))
   \<and> (SetStartAt a \<in> set (patch_sets p) \<longleftrightarrow> startAt p = Val a)
   \<and> (SetEndAt b \<in> set (patch_sets p) \<longleftrightarrow> endAt p = Val b)
   \<and> (no_faults S \<and> patch_sets p \<noteq> [] \<longrightarrow>
        committed (snd (patchSeasonBySlug S s p d))
          = map (\<lambda>r. if slug r = s then stamp S r (patched_row p r) else r) (committed d))
   \<and> (no_faults S \<and> patch_description p = Null \<longrightarrow>
        (\<forall>r\<in>set (committed (snd (patchSeasonBySlug S s p d))). slug r = s \<longrightarrow> description r = None))
   \<and> (patch_name p = Null \<longrightarrow>
        map name (committed (snd (patchSeasonBySlug S s p d))) = map name (committed d))"
proof -
  let ?t' = "map (\<lambda>r. if slug r = s then stamp S r (patched_row p r) else r) (committed d)"
  have p1: "SetName v \<in> set (patch_sets p) \<longleftrightarrow> patch_name p = Val v"
    by (auto simp: patch_sets_def split: field.splits)
  have p2: "SetDescription dv \<in> set (patch_sets p) \<longleftrightarrow>
        patch_description p \<noteq> Undefined
        \<and> dv = (case patch_description p of Val x \<Rightarrow> Some x | _ \<Rightarrow> None)"
    by (auto simp: patch_sets_def split: field.splits)
  have p3: "SetStartAt a \<in> set (patch_sets p) \<longleftrightarrow> startAt p = Val a"
    by (auto simp: patch_sets_def split: field.splits)
  have p4: "SetEndAt b \<in> set (patch_sets p) \<longleftrightarrow> endAt p = Val b"
    by (auto simp: patch_sets_def split: field.splits)
  have run: "no_faults S \<Longrightarrow> patch_sets p \<noteq> [] \<Longrightarrow>
        committed (snd (patchSeasonBySlug S s p d)) = ?t'"
    by (simp add: patch_runs)
  have p5: "no_faults S \<and> patch_sets p \<noteq> [] \<longrightarrow>
        committed (snd (patchSeasonBySlug S s p d)) = ?t'"
    using run by (intro impI) (elim conjE)
  have p6: "no_faults S \<and> patch_description p = Null \<longrightarrow>
        (\<forall>r\<in>set (committed (snd (patchSeasonBySlug S s p d))). slug r = s \<longrightarrow> description r = None)"
  proof (intro impI ballI, elim conjE)
    fix r'
    assume a: "no_faults S" and n: "patch_description p = Null"
      and m: "r' \<in> set (committed (snd (patchSeasonBySlug S s p d)))" and sl: "slug r' = s"
    from n have "patch_sets p \<noteq> []" by (simp add: patch_sets_def)
    with a have c: "committed (snd (patchSeasonBySlug S s p d)) = ?t'" by (rule run)
    from m have "r' \<in> set ?t'" unfolding c .
    with n show "description r' = None" using sl by (rule null_description_cleared)
  qed
  have p7: "patch_name p = Null \<longrightarrow>
        map name (committed (snd (patchSeasonBySlug S s p d))) = map name (committed d)"
  proof
    assume a: "patch_name p = Null"
    from patch_committed_cases[of S s p d]
    show "map name (committed (snd (patchSeasonBySlug S s p d))) = map name (committed d)"
    proof
      assume "committed (snd (patchSeasonBySlug S s p d)) = committed d"
      then show ?thesis by (simp only:)
    next
      assume "committed (snd (patchSeasonBySlug S s p d)) = ?t'"
      then show ?thesis by (simp only: null_name_ignored[OF a])
    qed
  qed
  show ?thesis
    by (intro conjI) (fact p1 p2 p3 p4 p5 p6 p7)+
qed

theorem patch_presence_rules_witness:
  "patch_sets example_patch = [SetDescription None, SetStartAt 150]
   \<and> map name (committed (snd (patchSeasonBySlug reliable ''b'' example_patch example_db)))
       = [''a'', ''b'', ''c'']
   \<and> map description (committed (snd (patchSeasonBySlug reliable ''b'' example_patch example_db)))
       = [Some ''text'', None, Some ''text'']
   \<and> map start_at (committed (snd (patchSeasonBySlug reliable ''b'' example_patch example_db)))
       = [100, 150, 300]"
proof -
  let ?t' = "committed (snd (patchSeasonBySlug reliable ''b'' example_patch example_db))"
  have h: "no_faults reliable \<and> patch_sets example_patch \<noteq> []" "patch_name example_patch = Null"
    by (simp_all add: no_faults_def reliable_def example_patch_def patch_sets_def)
  have s: "patch_sets example_patch = [SetDescription None, SetStartAt 150]"
    by (simp add: example_patch_def patch_sets_def)
  from patch_presence_rules[of _ example_patch _ _ _ reliable "''b''" example_db] h
  have c: "?t' = map (\<lambda>r. if slug r = ''b'' then stamp reliable r (patched_row example_patch r) else r)
                  (committed example_db)"
    and n: "map name ?t' = map name (committed example_db)"
    by blast+
  have n': "map name ?t' = [''a'', ''b'', ''c'']"
    unfolding n by (simp add: example_db_def mk_season_def)
  have d: "map description ?t' = [Some ''text'', None, Some ''text'']"
    unfolding c by (simp add: example_db_def mk_season_def stamp_def patched_row_def example_patch_def)
  have t: "map start_at ?t' = [100, 150, 300]"
    unfolding c by (simp add: example_db_def mk_season_def stamp_def patched_row_def example_patch_def)
  from s n' d t show ?thesis by (intro conjI)
qed

text \<open>
  Claim C8. When no field of the patch passes its presence check,
  \<open>patchSeasonBySlug\<close> returns 0 and leaves the whole state as it was: no call is made
  on the driver (the log is unchanged, so no failure of the server can matter), and no
  row and no \<open>updated_at\<close> changes.
\<close>

theorem empty_patch_is_noop:
  assumes "patch_name p = Undefined \<or> patch_name p = Null"
    and "patch_description p = Undefined"
    and "startAt p = Undefined \<or> startAt p = Null"
    and "endAt p = Undefined \<or> endAt p = Null"
  shows "patchSeasonBySlug S s p d = (Inr 0, d)"
proof -
  from assms have "patch_sets p = []"
    by (auto simp: patch_sets_def)
  then show ?thesis by (simp add: patchSeasonBySlug_def return_def)
qed

theorem empty_patch_is_noop_witness:
  "patchSeasonBySlug (reliable\<lparr>faults := (\<lambda>_. Some (Thrown None ''down''))\<rparr>) ''b''
     \<lparr>patch_name = Null, patch_description = Undefined, startAt = Undefined, endAt = Null\<rparr>
     example_db = (Inr 0, example_db)"
  by (rule empty_patch_is_noop) simp_all

subsection \<open>Listing and lookups\<close>

lemma listed_before_sorted:
  "sorted_wrt listed_before (sort_key (\<lambda>r. (- start_at r, - int (season_id r))) t)"
proof -
  let ?k = "\<lambda>r. (- start_at r, - int (season_id r))"
  have "sorted (map ?k (sort_key ?k t))" by (rule sorted_sort_key)
  then have "sorted_wrt (\<lambda>a b. ?k a \<le> ?k b) (sort_key ?k t)"
    by (simp only: sorted_map)
  then show ?thesis
    by (rule sorted_wrt_mono_rel[rotated]) (auto simp: listed_before_def less_eq_prod_def)
qed

lemma lookup_runs:
  assumes "no_faults S"
  shows "fst (listSeasons S d) = Inr (run_select SelectAllOrdered (committed d))"
    and "fst (getSeasonBySlug S s d) = Inr (first_or_null (run_select (SelectBySlug s) (committed d)))"
    and "fst (getActiveSeason S d) = Inr (first_or_null (run_select SelectActive (committed d)))"
    and "committed (snd (listSeasons S d)) = committed d"
    and "committed (snd (getSeasonBySlug S s d)) = committed d"
    and "committed (snd (getActiveSeason S d)) = committed d"
  using assms unfolding no_faults_def listSeasons_def getSeasonBySlug_def getActiveSeason_def io_defs
  by simp_all

text \<open>
  Claim C9. Without storage failure, \<open>listSeasons\<close> returns all rows of the table,
  ordered by start descending and, on equal starts, by id descending;
  \<open>getSeasonBySlug\<close> returns \<open>null\<close> when no row has the slug and \<open>getActiveSeason\<close>
  returns \<open>null\<close> when no row is active (neither throws). None of the three changes the
  table.
\<close>

theorem list_order_and_null_lookups:
  assumes "no_faults S"
  shows "(\<exists>rows. fst (listSeasons S d) = Inr rows
            \<and> mset rows = mset (committed d) \<and> sorted_wrt listed_before rows)
    \<and> (s \<notin> slug ` set (committed d) \<longrightarrow> fst (getSeasonBySlug S s d) = Inr None)
    \<and> ((\<forall>r\<in>set (committed d). status r \<noteq> Active) \<longrightarrow> fst (getActiveSeason S d) = Inr None)
    \<and> committed (snd (listSeasons S d)) = committed d
    \<and> committed (snd (getSeasonBySlug S s d)) = committed d
    \<and> committed (snd (getActiveSeason S d)) = committed d"
proof -
  have l: "\<exists>rows. fst (listSeasons S d) = Inr rows
            \<and> mset rows = mset (committed d) \<and> sorted_wrt listed_before rows"
    using lookup_runs(1)[OF assms, of d] listed_before_sorted[of "committed d"] by simp
  have g: "s \<notin> slug ` set (committed d) \<longrightarrow> fst (getSeasonBySlug S s d) = Inr None"
  proof
    assume "s \<notin> slug ` set (committed d)"
    then have "filter (\<lambda>r. slug r = s) (committed d) = []"
      by (auto simp: filter_empty_conv)
    then show "fst (getSeasonBySlug S s d) = Inr None"
      by (simp add: lookup_runs(2)[OF assms] first_or_null_def)
  qed
  have a: "(\<forall>r\<in>set (committed d). status r \<noteq> Active) \<longrightarrow> fst (getActiveSeason S d) = Inr None"
  proof
    assume "\<forall>r\<in>set (committed d). status r \<noteq> Active"
    then have "filter (\<lambda>r. status r = Active) (committed d) = []"
      by (simp add: filter_empty_conv)
    then show "fst (getActiveSeason S d) = Inr None"
      by (simp add: lookup_runs(3)[OF assms] first_or_null_def)
  qed
  show ?thesis
    by (intro conjI) (fact l g a lookup_runs(4)[OF assms] lookup_runs(5)[OF assms] lookup_runs(6)[OF assms])+
qed

theorem list_order_and_null_lookups_witness:
  "map slug (projr (fst (listSeasons reliable tied_db))) = [''c'', ''b'', ''a'', ''d'']
   \<and> fst (getSeasonBySlug reliable ''zz'' tied_db) = Inr None
   \<and> fst (getActiveSeason reliable tied_db) = Inr None"
proof -
  have h: "no_faults reliable" "''zz'' \<notin> slug ` set (committed tied_db)"
    "\<forall>r\<in>set (committed tied_db). status r \<noteq> Active"
    by (simp_all add: no_faults_def reliable_def tied_db_def mk_season_def)
  have l: "map slug (projr (fst (listSeasons reliable tied_db))) = [''c'', ''b'', ''a'', ''d'']"
    by (simp add: listSeasons_def io_defs reliable_def tied_db_def mk_season_def)
  from list_order_and_null_lookups[OF h(1), of tied_db "''zz''"] h(2) h(3) l
  show ?thesis by blast
qed

end
